theory Spec2Isabelle
  imports Complex_Main "HOL-Library.Sublist" "HOL-Library.Word"
begin

section \<open>Python values used by the notebooks\<close>

text \<open>
  A Python \<open>str\<close> is modelled as a \<open>string\<close>, one \<open>char\<close> per code point.
  The exceptions the notebook code can raise are values of \<open>py_error\<close>.
\<close>

datatype py_error = IndexError | URLError | FileNotFoundError | OSError | ValueError

text \<open>
  Python clamps the bounds of a slice \<open>xs[a:b]\<close> to the list: a negative bound counts
  from the end, a bound beyond the end is the end.
\<close>

definition slice_bound :: "nat \<Rightarrow> int \<Rightarrow> nat" where
  "slice_bound n i = (if i < 0 then nat (max 0 (int n + i)) else min n (nat i))"

definition list_slice :: "'a list \<Rightarrow> int \<Rightarrow> int \<Rightarrow> 'a list" where
  "list_slice xs a b =
     (let lo = slice_bound (length xs) a; hi = slice_bound (length xs) b
      in take (hi - lo) (drop lo xs))"

definition slice_from :: "'a list \<Rightarrow> int \<Rightarrow> 'a list" where
  "slice_from xs a = drop (slice_bound (length xs) a) xs"

text \<open>
  \<open>text.find(sub)\<close>: the lowest index at which \<open>sub\<close> starts in \<open>text\<close>, or \<open>-1\<close>.
\<close>

fun find_str :: "string \<Rightarrow> string \<Rightarrow> int" where
  "find_str [] sub = (if sub = [] then 0 else - 1)"
| "find_str (c # cs) sub =
     (if prefix sub (c # cs) then 0
      else (let r = find_str cs sub in if r = - 1 then - 1 else r + 1))"

section \<open>Retrieval notebook: visualization\<close>

text \<open>
  The \<open>while True\<close> loop of \<open>output_with_highlight\<close>, with the loop variables
  \<open>output\<close>, \<open>text\<close> and \<open>i\<close> as arguments. A run that never leaves the loop is the
  value \<open>None\<close>.
\<close>

partial_function (option) highlight_loop ::
  "string \<Rightarrow> string \<Rightarrow> string \<Rightarrow> int \<Rightarrow> string option" where
  "highlight_loop output text highlight i =
     (if i = - 1 then Some (output @ text)
      else
        (let output1 = output @ list_slice text 0 i;
             output2 = output1 @ (''<b>'' @ list_slice text i (i + int (length highlight)) @ ''<b>'');
             text' = slice_from text (i + int (length highlight))
         in highlight_loop output2 text' highlight (find_str text' highlight)))"

definition output_with_highlight :: "string \<Rightarrow> string \<Rightarrow> string option" where
  "output_with_highlight text highlight =
     map_option (\<lambda>output. output @ ''</li>'' @ [CHR 0x0A])
       (highlight_loop ''<li> '' text highlight (find_str text highlight))"

section \<open>Retrieval notebook: SQuAD extraction\<close>

text \<open>
  The SQuAD JSON, \<open>data[].paragraphs[].{context, qas[].{question, answers[].text}}\<close>.
  Keys the code does not read stay in the \<open>more\<close> part of each record.
\<close>

record answer =
  answer_text :: string

record qas =
  qas_question :: string
  qas_answers :: "answer list"

record squad_paragraph =
  paragraph_context :: string
  paragraph_qas :: "qas list"

record article =
  article_paragraphs :: "squad_paragraph list"

record squad =
  squad_data :: "article list"

text \<open>
  \<open>list(set(xs))\<close>. A Python set holds an element once and iterates in the order of its
  hash table. The model keeps the elements ordered by an arbitrary hash \<open>h\<close>, equal
  hashes in insertion order; \<open>set_add\<close> is the insertion done for each element of \<open>xs\<close>.
\<close>

definition set_add :: "('a \<Rightarrow> nat) \<Rightarrow> 'a list \<Rightarrow> 'a \<Rightarrow> 'a list" where
  "set_add h s x = (if x \<in> set s then s else insort_key h x s)"

definition list_of_set :: "('a \<Rightarrow> nat) \<Rightarrow> 'a list \<Rightarrow> 'a list" where
  "list_of_set h xs = foldl (set_add h) [] xs"

text \<open>
  \<open>sent_tokenize\<close> is NLTK's sentence tokenizer, a parameter of the model.
\<close>

definition paragraph_sentences ::
  "(string \<Rightarrow> string list) \<Rightarrow> 'a squad_paragraph_scheme \<Rightarrow> (string \<times> string) list" where
  "paragraph_sentences sent_tokenize paragraph =
     (let sentences = sent_tokenize (paragraph_context paragraph)
      in zip sentences (replicate (length sentences) (paragraph_context paragraph)))"

definition extract_sentences_from_squad_json ::
  "(string \<times> string \<Rightarrow> nat) \<Rightarrow> (string \<Rightarrow> string list) \<Rightarrow> squad \<Rightarrow> (string \<times> string) list" where
  "extract_sentences_from_squad_json h sent_tokenize squad =
     (let all_sentences =
        fold (\<lambda>data all_sentences.
          fold (\<lambda>paragraph all_sentences.
              all_sentences @ paragraph_sentences sent_tokenize paragraph)
            (article_paragraphs data) all_sentences)
          (squad_data squad) []
      in list_of_set h all_sentences)"

definition append_question :: "'a qas_scheme \<Rightarrow> (string \<times> string) list \<Rightarrow> (string \<times> string) list" where
  "append_question qas questions =
     (case qas_answers qas of
        [] \<Rightarrow> questions
      | a # _ \<Rightarrow> questions @ [(qas_question qas, answer_text a)])"

definition extract_questions_from_squad_json ::
  "(string \<times> string \<Rightarrow> nat) \<Rightarrow> squad \<Rightarrow> (string \<times> string) list" where
  "extract_questions_from_squad_json h squad =
     (let questions =
        fold (\<lambda>data questions.
          fold (\<lambda>paragraph questions.
              fold append_question (paragraph_qas paragraph) questions)
            (article_paragraphs data) questions)
          (squad_data squad) []
      in list_of_set h questions)"

text \<open>An input for the extraction: one paragraph with three questions.\<close>

definition squad_example :: squad where
  "squad_example = \<lparr>squad_data = [\<lparr>article_paragraphs = [
      \<lparr>paragraph_context = ''A b. C d.'',
       paragraph_qas =
         [\<lparr>qas_question = ''q1'', qas_answers = [\<lparr>answer_text = ''b''\<rparr>, \<lparr>answer_text = ''d''\<rparr>]\<rparr>,
          \<lparr>qas_question = ''q2'', qas_answers = []\<rparr>,
          \<lparr>qas_question = ''q1'', qas_answers = [\<lparr>answer_text = ''b''\<rparr>]\<rparr>]\<rparr>]\<rparr>]\<rparr>"

section \<open>Retrieval notebook: embedding computation\<close>

text \<open>
  The \<open>simpleneighbors\<close> index: \<open>add_one\<close> appends an item with its vector,
  \<open>build\<close> finalizes the index.
\<close>

record 'e neighbors_index =
  dims :: nat
  corpus :: "(string \<times> 'e list) list"
  built :: bool

definition add_one :: "'e neighbors_index \<Rightarrow> string \<Rightarrow> 'e list \<Rightarrow> 'e neighbors_index" where
  "add_one idx item vector = idx\<lparr>corpus := corpus idx @ [(item, vector)]\<rparr>"

definition build :: "'e neighbors_index \<Rightarrow> 'e neighbors_index" where
  "build idx = idx\<lparr>built := True\<rparr>"

text \<open>
  The state of the cell: the calls made to the response encoder, each with its
  \<open>input\<close> and \<open>context\<close> batch, and the index.
\<close>

record 'e indexing_state =
  encoder_calls :: "(string list \<times> string list) list"
  index :: "'e neighbors_index"

definition batch_size :: nat where
  "batch_size = 100"

text \<open>
  \<open>zip(*(iter(sentences),) * batch_size)\<close>: every tuple takes \<open>batch_size\<close> elements
  from the one shared iterator, and \<open>zip\<close> stops when the iterator runs out.
\<close>

function whole_batches :: "nat \<Rightarrow> 'a list \<Rightarrow> 'a list list" where
  "whole_batches n xs =
     (if n = 0 \<or> length xs < n then [] else take n xs # whole_batches n (drop n xs))"
  by pat_completeness auto
termination
  by (relation "measure (\<lambda>(n, xs). length xs)") auto

declare whole_batches.simps [simp del]

text \<open>
  \<open>for batch_index, batch in enumerate(response_batch):
  index.add_one(batch, encodings['outputs'][batch_index])\<close>, from \<open>batch_index = k\<close> on.
\<close>

fun add_rows ::
  "string list \<Rightarrow> nat \<Rightarrow> 'e list list \<Rightarrow> 'e neighbors_index \<Rightarrow> py_error + 'e neighbors_index" where
  "add_rows [] k outputs idx = Inr idx"
| "add_rows (batch # rest) k outputs idx =
     (if k < length outputs then add_rows rest (Suc k) outputs (add_one idx batch (outputs ! k))
      else Inl IndexError)"

text \<open>
  The loop over the slices. The response encoder is the parameter \<open>enc\<close>: it maps
  an input batch and a context batch to the list of output vectors.
\<close>

fun index_batches ::
  "(string list \<Rightarrow> string list \<Rightarrow> 'e list list) \<Rightarrow> (string \<times> string) list list \<Rightarrow>
   'e indexing_state \<Rightarrow> py_error + 'e indexing_state" where
  "index_batches enc [] st = Inr st"
| "index_batches enc (s # slices) st =
     (let response_batch = map fst s;
          context_batch = map snd s;
          encodings = enc response_batch context_batch;
          st1 = st\<lparr>encoder_calls := encoder_calls st @ [(response_batch, context_batch)]\<rparr>
      in case add_rows response_batch 0 encodings (index st1) of
           Inl e \<Rightarrow> Inl e
         | Inr index' \<Rightarrow> index_batches enc slices (st1\<lparr>index := index'\<rparr>))"

text \<open>
  The whole cell: the first pair is encoded alone to read the embedding dimension,
  the index is created, the whole batches are encoded and inserted, the index is built.
\<close>

definition embedding_computation ::
  "(string list \<Rightarrow> string list \<Rightarrow> 'e list list) \<Rightarrow> (string \<times> string) list \<Rightarrow>
   py_error + 'e indexing_state" where
  "embedding_computation enc sentences =
     (case sentences of
        [] \<Rightarrow> Inl IndexError
      | s0 # _ \<Rightarrow>
          (let encodings = enc [fst s0] [snd s0];
               calls = [([fst s0], [snd s0])]
           in case encodings of
                [] \<Rightarrow> Inl IndexError
              | v0 # _ \<Rightarrow>
                  (let index0 = \<lparr>dims = length v0, corpus = [], built = False\<rparr>;
                       slices = whole_batches batch_size sentences
                   in case index_batches enc slices \<lparr>encoder_calls = calls, index = index0\<rparr> of
                        Inl e \<Rightarrow> Inl e
                      | Inr st \<Rightarrow> Inr (st\<lparr>index := build (index st)\<rparr>))))"

text \<open>An encoder for examples: the vector of a row holds the length of its input.\<close>

definition length_encoder :: "string list \<Rightarrow> string list \<Rightarrow> nat list list" where
  "length_encoder inputs contexts = map (\<lambda>r. [length r]) inputs"

section \<open>Action recognition notebook: fetching videos\<close>










section \<open>Action recognition notebook: frames\<close>

text \<open>
  An image array of shape \<open>(height, width, 3)\<close>: \<open>pixels\<close> holds the rows, a pixel
  holds its three channel values.
\<close>

record 'a frame =
  height :: nat
  width :: nat
  pixels :: "'a list list"

type_synonym 'a pixel = "'a \<times> 'a \<times> 'a"

definition frame_ok :: "'a frame \<Rightarrow> bool" where
  "frame_ok frame \<longleftrightarrow>
     length (pixels frame) = height frame \<and> (\<forall>row \<in> set (pixels frame). length row = width frame)"

text \<open>The length of \<open>xs[a:b]\<close> for a list of length \<open>n\<close>.\<close>

definition slice_length :: "nat \<Rightarrow> int \<Rightarrow> int \<Rightarrow> nat" where
  "slice_length n a b = slice_bound n b - slice_bound n a"

definition crop_center_square :: "'a frame \<Rightarrow> 'a frame" where
  "crop_center_square frame =
     (let y = int (height frame);
          x = int (width frame);
          min_dim = min y x;
          start_x = (x div 2) - (min_dim div 2);
          start_y = (y div 2) - (min_dim div 2)
      in \<lparr>height = slice_length (height frame) start_y (start_y + min_dim),
          width = slice_length (width frame) start_x (start_x + min_dim),
          pixels = map (\<lambda>row. list_slice row start_x (start_x + min_dim))
                     (list_slice (pixels frame) start_y (start_y + min_dim))\<rparr>)"

text \<open>\<open>frame[:, :, [2, 1, 0]]\<close>\<close>

definition reorder_channels :: "'a pixel frame \<Rightarrow> 'a pixel frame" where
  "reorder_channels frame =
     frame\<lparr>pixels := map (map (\<lambda>(c0, c1, c2). (c2, c1, c0))) (pixels frame)\<rparr>"

text \<open>
  The reading loop of \<open>load_video\<close>: \<open>cap\<close> holds the frames that \<open>cap.read()\<close> still
  returns, \<open>frames\<close> the frames appended so far. \<open>resize\<close> is \<open>cv2.resize\<close> at the
  requested size; the frames are 8-bit before and after it.
\<close>

fun read_frames ::
  "(8 word pixel frame \<Rightarrow> 8 word pixel frame) \<Rightarrow> int \<Rightarrow> 8 word pixel frame list \<Rightarrow>
   8 word pixel frame list \<Rightarrow> 8 word pixel frame list" where
  "read_frames resize max_frames [] frames = frames"
| "read_frames resize max_frames (frame # cap) frames =
     (let frame1 = crop_center_square frame;
          frame2 = resize frame1;
          frame3 = reorder_channels frame2;
          frames' = frames @ [frame3]
      in if int (length frames') = max_frames then frames'
         else read_frames resize max_frames cap frames')"

text \<open>
  \<open>np.array(frames) / 255.0\<close>: every 8-bit value is converted to a float and divided
  by 255. The float result is the exact quotient rounded by \<open>rnd\<close>.
\<close>

definition divide_255 :: "(real \<Rightarrow> real) \<Rightarrow> 8 word pixel frame \<Rightarrow> real pixel frame" where
  "divide_255 rnd frame =
     \<lparr>height = height frame, width = width frame,
      pixels = map (map (\<lambda>(c0, c1, c2).
          (rnd (real (unat c0) / 255), rnd (real (unat c1) / 255), rnd (real (unat c2) / 255))))
        (pixels frame)\<rparr>"

definition load_video ::
  "(real \<Rightarrow> real) \<Rightarrow> (string \<Rightarrow> 8 word pixel frame list) \<Rightarrow>
   (nat \<times> nat \<Rightarrow> 8 word pixel frame \<Rightarrow> 8 word pixel frame) \<Rightarrow>
   string \<Rightarrow> int \<Rightarrow> nat \<times> nat \<Rightarrow> real pixel frame list" where
  "load_video rnd video_capture cv2_resize path max_frames resize =
     (let cap = video_capture path;
          frames = read_frames (cv2_resize resize) max_frames cap []
      in map (divide_255 rnd) frames)"

text \<open>All the values of an array of frames, in order.\<close>

definition frame_values :: "'a pixel frame \<Rightarrow> 'a list" where
  "frame_values frame = concat (map (\<lambda>(c0, c1, c2). [c0, c1, c2]) (concat (pixels frame)))"

definition array_values :: "'a pixel frame list \<Rightarrow> 'a list" where
  "array_values frames = concat (map frame_values frames)"

text \<open>Values for examples: a frame of two rows and four columns, a video of that
  one frame, and a resize that leaves the frame as it is.\<close>

definition frame_example :: "8 word pixel frame" where
  "frame_example =
     \<lparr>height = 2, width = 4,
      pixels = [[(0, 1, 2), (3, 4, 5), (6, 7, 8), (9, 10, 11)],
                [(12, 13, 14), (255, 128, 51), (18, 19, 20), (21, 22, 23)]]\<rparr>"

definition one_frame_video :: "string \<Rightarrow> 8 word pixel frame list" where
  "one_frame_video path = [frame_example]"

definition no_resize :: "nat \<times> nat \<Rightarrow> 8 word pixel frame \<Rightarrow> 8 word pixel frame" where
  "no_resize dsize frame = frame"

section \<open>Action recognition notebook: prediction\<close>

text \<open>\<open>np.argsort\<close>: the indices of the values in ascending order of value.\<close>

definition argsort :: "real list \<Rightarrow> nat list" where
  "argsort ps = sort_key (\<lambda>i. ps ! i) [0..<length ps]"

text \<open>
  The printing loop of \<open>predict\<close>: a line is the label and the percentage
  \<open>probabilities[i] * 100\<close>.
\<close>

fun print_actions :: "string list \<Rightarrow> real list \<Rightarrow> nat list \<Rightarrow> py_error + (string \<times> real) list" where
  "print_actions labels probabilities [] = Inr []"
| "print_actions labels probabilities (i # rest) =
     (if i < length labels then
        (case print_actions labels probabilities rest of
           Inl e \<Rightarrow> Inl e
         | Inr lines \<Rightarrow> Inr ((labels ! i, probabilities ! i * 100) # lines))
      else Inl IndexError)"

text \<open>
  The classifier \<open>i3d\<close> and \<open>tf.nn.softmax\<close> are parameters; \<open>labels\<close> is the
  global list of class names.
\<close>

definition predict ::
  "('v \<Rightarrow> real list) \<Rightarrow> (real list \<Rightarrow> real list) \<Rightarrow> string list \<Rightarrow> 'v \<Rightarrow>
   py_error + (string \<times> real) list" where
  "predict i3d softmax labels sample_video =
     (let logits = i3d sample_video;
          probabilities = softmax logits
      in print_actions labels probabilities (take 5 (rev (argsort probabilities))))"

text \<open>The softmax of real numbers, for examples.\<close>

definition real_softmax :: "real list \<Rightarrow> real list" where
  "real_softmax logits = map (\<lambda>x. exp x / sum_list (map exp logits)) logits"

text \<open>A rounding for examples: to the nearest multiple of \<open>1 / 1024\<close>.\<close>

definition round_grid :: "real \<Rightarrow> real" where
  "round_grid x = of_int \<lfloor>x * 1024 + 1 / 2\<rfloor> / 1024"

text \<open>Values for examples: six class names and a classifier that returns six logits.\<close>

definition labels_example :: "string list" where
  "labels_example = [''abseiling'', ''archery'', ''bowling'', ''cricket'', ''dancing'', ''fencing'']"

definition i3d_example :: "unit \<Rightarrow> real list" where
  "i3d_example sample_video = [ln 3, ln 1, ln 6, ln 2, ln 5, ln 4]"

section \<open>Properties of the string primitives\<close>

lemma find_str_ge: "- 1 \<le> find_str text sub"
  by (induction "text") (auto simp: Let_def)

lemma find_str_absent_iff: "find_str text sub = - 1 \<longleftrightarrow> \<not> sublist sub text"
proof (induction "text")
  case Nil
  then show ?case by auto
next
  case (Cons c cs)
  have "- 1 \<le> find_str cs sub" by (rule find_str_ge)
  then have "find_str cs sub + 1 \<noteq> - 1" by arith
  with Cons show ?case
    by (auto simp: Let_def sublist_Cons_right)
qed

lemma find_str_bound:
  "find_str text sub \<noteq> - 1 \<Longrightarrow> nat (find_str text sub) + length sub \<le> length text"
proof (induction "text")
  case Nil
  then show ?case by (auto split: if_splits)
next
  case (Cons c cs)
  show ?case
  proof (cases "prefix sub (c # cs)")
    case True
    from prefix_length_le [OF True] True show ?thesis by simp
  next
    case False
    with Cons.prems have ne: "find_str cs sub \<noteq> - 1"
      by (auto simp: Let_def split: if_splits)
    have "- 1 \<le> find_str cs sub" by (rule find_str_ge)
    with ne have pos: "0 \<le> find_str cs sub" by arith
    from Cons.IH [OF ne] pos False ne show ?thesis
      by (simp add: Let_def nat_add_distrib)
  qed
qed

lemma find_str_empty [simp]: "find_str text [] = 0"
  by (cases "text") auto

lemma slice_from_nonneg: "0 \<le> a \<Longrightarrow> slice_from xs a = drop (nat a) xs"
  by (simp add: slice_from_def slice_bound_def min_def)


section \<open>Properties of the highlighting loop\<close>

lemma highlight_loop_terminates:
  assumes "highlight \<noteq> []"
  shows "\<exists>r. highlight_loop out text highlight (find_str text highlight) = Some r"
proof (induction "length text" arbitrary: "text" out rule: less_induct)
  case less
  show ?case
  proof (cases "find_str text highlight = - 1")
    case True
    then show ?thesis by (subst highlight_loop.simps) simp
  next
    case False
    have "- 1 \<le> find_str text highlight" by (rule find_str_ge)
    with False have pos: "0 \<le> find_str text highlight" by arith
    let ?t = "slice_from text (find_str text highlight + int (length highlight))"
    from find_str_bound [OF False] assms pos have "length ?t < length text"
      by (cases highlight) (auto simp: slice_from_nonneg nat_add_distrib)
    from less [OF this] False show ?thesis
      by (subst highlight_loop.simps) (simp add: Let_def)
  qed
qed

lemma highlight_loop_returns_nonempty:
  assumes "highlight_loop out t h i = Some r"
  shows "h \<noteq> [] \<or> i \<noteq> 0"
proof (rule highlight_loop.raw_induct [where P = "\<lambda>out t h i r. h \<noteq> [] \<or> i \<noteq> 0", OF _ assms])
  fix f :: "string \<Rightarrow> string \<Rightarrow> string \<Rightarrow> int \<Rightarrow> string option"
  fix out' t' h' :: string and i' :: int and r' :: string
  assume IH: "\<And>a b c d y. f a b c d = Some y \<Longrightarrow> c \<noteq> [] \<or> d \<noteq> 0"
    and step: "(if i' = - 1 then Some (out' @ t')
      else
        (let output1 = out' @ list_slice t' 0 i';
             output2 = output1 @ (''<b>'' @ list_slice t' i' (i' + int (length h')) @ ''<b>'');
             text' = slice_from t' (i' + int (length h'))
         in f output2 text' h' (find_str text' h'))) = Some r'"
  show "h' \<noteq> [] \<or> i' \<noteq> 0"
  proof (rule ccontr)
    assume "\<not> (h' \<noteq> [] \<or> i' \<noteq> 0)"
    then have e: "h' = []" "i' = 0" by auto
    with step have "\<exists>a b. f a b [] 0 = Some r'"
      by (auto simp: Let_def)
    with IH show False by blast
  qed
qed

lemma highlight_loop_empty: "highlight_loop out t [] 0 = None"
proof (cases "highlight_loop out t [] 0")
  case None
  then show ?thesis .
next
  case (Some r)
  from highlight_loop_returns_nonempty [OF this] show ?thesis by simp
qed

text \<open>
  C2. The claim: every occurrence of the highlight is enclosed between an opening and
  a matching closing emphasis tag. The code appends the opening tag \<open><b>\<close> on both
  sides of the occurrence: for the text \<open>abc\<close> and the highlight \<open>b\<close> it returns
  \<open><li> a<b>b<b>c</li>\<close>, where the claim has \<open><li> a<b>b</b>c</li>\<close>.
\<close>

theorem output_with_highlight_unclosed_tag:
  "output_with_highlight ''abc'' ''b'' = Some (''<li> a<b>b<b>c</li>'' @ [CHR 0x0A])"
  by (simp add: output_with_highlight_def highlight_loop.simps list_slice_def
      slice_from_def slice_bound_def Let_def)

text \<open>
  C3. When the non-empty highlight does not occur in the text (\<open>sublist h t\<close> says
  that \<open>t = ps @ h @ ss\<close> for some \<open>ps\<close> and \<open>ss\<close>), the function returns the text
  unchanged between the list-item markup, with nothing inserted.
\<close>

theorem output_with_highlight_absent:
  "highlight \<noteq> [] \<Longrightarrow> \<not> sublist highlight text \<Longrightarrow>
   output_with_highlight text highlight = Some (''<li> '' @ text @ ''</li>'' @ [CHR 0x0A])"
  by (simp add: output_with_highlight_def find_str_absent_iff [symmetric] highlight_loop.simps)

theorem output_with_highlight_absent_witness:
  "''x'' \<noteq> [] \<and> \<not> sublist ''x'' ''abc'' \<and>
   output_with_highlight ''abc'' ''x'' = Some (''<li> abc</li>'' @ [CHR 0x0A])"
  using output_with_highlight_absent [of "''x''" "''abc''"]
  by (simp add: sublist_Cons_right)

text \<open>
  C10. With a non-empty highlight the function returns a result for every text; an
  iteration that does not break leaves a remaining text that is shorter by at least
  the length of the highlight; with the empty highlight the loop never ends.
\<close>

theorem output_with_highlight_total:
  "(highlight \<noteq> [] \<longrightarrow> (\<exists>r. output_with_highlight text highlight = Some r)) \<and>
   (find_str text highlight \<noteq> - 1 \<longrightarrow>
      length (slice_from text (find_str text highlight + int (length highlight)))
        + length highlight \<le> length text) \<and>
   output_with_highlight text [] = None"
proof (intro conjI impI)
  assume "highlight \<noteq> []"
  from highlight_loop_terminates [OF this, of "''<li> ''" "text"]
  show "\<exists>r. output_with_highlight text highlight = Some r"
    by (auto simp: output_with_highlight_def)
next
  assume ne: "find_str text highlight \<noteq> - 1"
  have "- 1 \<le> find_str text highlight" by (rule find_str_ge)
  with ne have "0 \<le> find_str text highlight" by arith
  with find_str_bound [OF ne]
  show "length (slice_from text (find_str text highlight + int (length highlight)))
        + length highlight \<le> length text"
    by (simp add: slice_from_nonneg nat_add_distrib)
next
  show "output_with_highlight text [] = None"
    by (simp add: output_with_highlight_def highlight_loop_empty)
qed

theorem output_with_highlight_total_witness:
  "''b'' \<noteq> [] \<and> output_with_highlight ''abcb'' ''b'' \<noteq> None \<and>
   output_with_highlight ''abcb'' ''b'' = Some (''<li> a<b>b<b>c<b>b<b></li>'' @ [CHR 0x0A]) \<and>
   find_str ''abcb'' ''b'' = 1 \<and> slice_from ''abcb'' (1 + 1) = ''cb'' \<and>
   output_with_highlight ''abcb'' [] = None"
proof -
  have "output_with_highlight ''abcb'' ''b'' = Some (''<li> a<b>b<b>c<b>b<b></li>'' @ [CHR 0x0A])"
    by (simp add: output_with_highlight_def highlight_loop.simps list_slice_def
        slice_from_def slice_bound_def Let_def)
  with output_with_highlight_total [of "''b''" "''abcb''"] show ?thesis
    by (auto simp: slice_from_def slice_bound_def)
qed

section \<open>Properties of the extraction\<close>

lemma set_foldl_set_add: "set (foldl (set_add h) s xs) = set s \<union> set xs"
  by (induction xs arbitrary: s) (auto simp: set_add_def set_insort_key)

lemma distinct_foldl_set_add: "distinct s \<Longrightarrow> distinct (foldl (set_add h) s xs)"
  by (induction xs arbitrary: s) (auto simp: set_add_def distinct_insort)

lemma set_list_of_set: "set (list_of_set h xs) = set xs"
  by (simp add: list_of_set_def set_foldl_set_add)

lemma distinct_list_of_set: "distinct (list_of_set h xs)"
  by (simp add: list_of_set_def distinct_foldl_set_add)

lemma set_fold_append_question:
  "set (fold append_question qs acc) =
     set acc \<union> {(qas_question qa, answer_text (hd (qas_answers qa))) | qa.
        qa \<in> set qs \<and> qas_answers qa \<noteq> []}"
proof (induction qs arbitrary: acc)
  case Nil
  then show ?case by simp
next
  case (Cons q qs)
  have step: "set (append_question q acc) =
      set acc \<union> (if qas_answers q = [] then {}
                   else {(qas_question q, answer_text (hd (qas_answers q)))})"
    by (cases "qas_answers q") (simp_all add: append_question_def)
  show ?case
    by (auto simp: Cons step)
qed

lemma set_fold_paragraphs:
  "set (fold (\<lambda>paragraph questions. fold append_question (paragraph_qas paragraph) questions)
        ps acc) =
     set acc \<union> {(qas_question qa, answer_text (hd (qas_answers qa))) | qa p.
        p \<in> set ps \<and> qa \<in> set (paragraph_qas p) \<and> qas_answers qa \<noteq> []}"
proof (induction ps arbitrary: acc)
  case Nil
  then show ?case by simp
next
  case (Cons p ps)
  show ?case
    by (simp add: Cons set_fold_append_question) blast
qed

lemma set_fold_data:
  "set (fold (\<lambda>data questions.
          fold (\<lambda>paragraph questions.
              fold append_question (paragraph_qas paragraph) questions)
            (article_paragraphs data) questions) ds acc) =
     set acc \<union> {(qas_question qa, answer_text (hd (qas_answers qa))) | qa p d.
        d \<in> set ds \<and> p \<in> set (article_paragraphs d) \<and> qa \<in> set (paragraph_qas p) \<and>
        qas_answers qa \<noteq> []}"
proof (induction ds arbitrary: acc)
  case Nil
  then show ?case by simp
next
  case (Cons d ds)
  show ?case
    by (simp add: Cons set_fold_paragraphs) blast
qed

lemma set_paragraph_sentences:
  "set (paragraph_sentences sent_tokenize p) =
     {(s, paragraph_context p) | s. s \<in> set (sent_tokenize (paragraph_context p))}"
proof -
  have "zip xs (replicate (length xs) c) = map (\<lambda>s. (s, c)) xs" for xs :: "string list" and c :: string
    by (induction xs) simp_all
  then show ?thesis
    by (auto simp: paragraph_sentences_def Let_def)
qed

lemma set_fold_sentences_paragraphs:
  "set (fold (\<lambda>paragraph all_sentences.
          all_sentences @ paragraph_sentences sent_tokenize paragraph) ps acc) =
     set acc \<union> {(s, paragraph_context p) | s p.
        p \<in> set ps \<and> s \<in> set (sent_tokenize (paragraph_context p))}"
proof (induction ps arbitrary: acc)
  case Nil
  then show ?case by simp
next
  case (Cons p ps)
  show ?case
    by (simp add: Cons set_paragraph_sentences) blast
qed

lemma set_fold_sentences_data:
  "set (fold (\<lambda>data all_sentences.
          fold (\<lambda>paragraph all_sentences.
              all_sentences @ paragraph_sentences sent_tokenize paragraph)
            (article_paragraphs data) all_sentences) ds acc) =
     set acc \<union> {(s, paragraph_context p) | s p d.
        d \<in> set ds \<and> p \<in> set (article_paragraphs d) \<and>
        s \<in> set (sent_tokenize (paragraph_context p))}"
proof (induction ds arbitrary: acc)
  case Nil
  then show ?case by simp
next
  case (Cons d ds)
  show ?case
    by (simp add: Cons set_fold_sentences_paragraphs) blast
qed

text \<open>
  C4. Both extraction outputs hold every pair at most once, for every SQuAD value,
  every tokenizer and every iteration order of the set; and removing the duplicates
  loses no pair: the sentences output holds exactly the pairs of a sentence of a
  paragraph with the context of that paragraph, the questions output exactly the
  pairs of a question with its first answer.
\<close>

theorem extraction_distinct:
  "distinct (extract_sentences_from_squad_json h sent_tokenize squad) \<and>
   distinct (extract_questions_from_squad_json h squad) \<and>
   set (extract_sentences_from_squad_json h sent_tokenize squad) =
     {(s, paragraph_context p) | s p d.
        d \<in> set (squad_data squad) \<and> p \<in> set (article_paragraphs d) \<and>
        s \<in> set (sent_tokenize (paragraph_context p))} \<and>
   set (extract_questions_from_squad_json h squad) =
     {(qas_question qa, answer_text (hd (qas_answers qa))) | qa p d.
        d \<in> set (squad_data squad) \<and> p \<in> set (article_paragraphs d) \<and>
        qa \<in> set (paragraph_qas p) \<and> qas_answers qa \<noteq> []}"
  by (simp add: extract_sentences_from_squad_json_def extract_questions_from_squad_json_def
      distinct_list_of_set set_list_of_set set_fold_data set_fold_sentences_data)

text \<open>
  C5. A pair \<open>(q, a)\<close> is in the output of \<open>extract_questions_from_squad_json\<close> exactly
  when some \<open>qas\<close> entry of some paragraph has the question \<open>q\<close> and a non-empty list of
  answers whose first answer has the text \<open>a\<close>.
\<close>

theorem extract_questions_iff:
  "(q, a) \<in> set (extract_questions_from_squad_json h squad) \<longleftrightarrow>
   (\<exists>data \<in> set (squad_data squad). \<exists>paragraph \<in> set (article_paragraphs data).
      \<exists>qas \<in> set (paragraph_qas paragraph).
        qas_question qas = q \<and> qas_answers qas \<noteq> [] \<and>
        answer_text (hd (qas_answers qas)) = a)"
  by (simp add: extract_questions_from_squad_json_def set_list_of_set set_fold_data) blast

theorem extract_questions_iff_witness:
  "(''q1'', ''b'') \<in> set (extract_questions_from_squad_json (\<lambda>(q, a). length q) squad_example) \<and>
   (''q1'', ''d'') \<notin> set (extract_questions_from_squad_json (\<lambda>(q, a). length q) squad_example) \<and>
   (''q2'', ''b'') \<notin> set (extract_questions_from_squad_json (\<lambda>(q, a). length q) squad_example)"
  using extract_questions_iff [of "''q1''" "''b''" "\<lambda>(q, a). length q" squad_example]
    extract_questions_iff [of "''q1''" "''d''" "\<lambda>(q, a). length q" squad_example]
    extract_questions_iff [of "''q2''" "''b''" "\<lambda>(q, a). length q" squad_example]
  by (simp add: squad_example_def)

section \<open>Properties of the embedding computation\<close>

lemma whole_batches_concat:
  "0 < n \<Longrightarrow> concat (whole_batches n xs) = take (length xs div n * n) xs"
proof (induction n xs rule: whole_batches.induct)
  case (1 n xs)
  show ?case
  proof (cases "length xs < n")
    case True
    then show ?thesis by (subst whole_batches.simps) simp
  next
    case False
    with 1 have IH: "concat (whole_batches n (drop n xs)) =
        take (length (drop n xs) div n * n) (drop n xs)"
      by simp
    from False "1.prems" have d: "length xs div n = Suc ((length xs - n) div n)"
      by (simp add: le_div_geq)
    have "take (Suc ((length xs - n) div n) * n) xs =
        take n xs @ take ((length xs - n) div n * n) (drop n xs)"
      by (simp add: take_add add.commute)
    with IH d False "1.prems" show ?thesis
      by (subst whole_batches.simps) simp
  qed
qed

lemma whole_batches_length:
  "0 < n \<Longrightarrow> b \<in> set (whole_batches n xs) \<Longrightarrow> length b = n"
proof (induction n xs rule: whole_batches.induct)
  case (1 n xs)
  from "1.prems"(2) have "\<not> length xs < n"
    by (subst (asm) whole_batches.simps) (auto split: if_splits)
  with 1 show ?case
    by (subst (asm) (2) whole_batches.simps) (auto split: if_splits)
qed

lemma whole_batches_count:
  "0 < n \<Longrightarrow> length (whole_batches n xs) = length xs div n"
proof (induction n xs rule: whole_batches.induct)
  case (1 n xs)
  show ?case
  proof (cases "length xs < n")
    case True
    then show ?thesis by (subst whole_batches.simps) simp
  next
    case False
    with 1 show ?thesis
      by (subst whole_batches.simps) (simp add: le_div_geq)
  qed
qed

lemma add_rows_ok:
  "k + length rs \<le> length outputs \<Longrightarrow>
   add_rows rs k outputs idx = Inr (idx\<lparr>corpus := corpus idx @ zip rs (drop k outputs)\<rparr>)"
proof (induction rs arbitrary: k idx)
  case Nil
  then show ?case by simp
next
  case (Cons r rs)
  then have "k < length outputs" by simp
  then have "drop k outputs = outputs ! k # drop (Suc k) outputs"
    by (simp add: Cons_nth_drop_Suc)
  with Cons show ?case by (simp add: add_one_def)
qed

lemma index_batches_ok:
  assumes enc: "\<And>rs cs. length (enc rs cs) = length rs"
  shows "index_batches enc slices st =
     Inr (st\<lparr>encoder_calls := encoder_calls st @ map (\<lambda>s. (map fst s, map snd s)) slices,
            index := (index st)\<lparr>corpus := corpus (index st) @
               concat (map (\<lambda>s. zip (map fst s) (enc (map fst s) (map snd s))) slices)\<rparr>\<rparr>)"
proof (induction slices arbitrary: st)
  case Nil
  then show ?case by simp
next
  case (Cons s slices)
  have "add_rows (map fst s) 0 (enc (map fst s) (map snd s)) idx =
      Inr (idx\<lparr>corpus := corpus idx @ zip (map fst s) (enc (map fst s) (map snd s))\<rparr>)" for idx
    using add_rows_ok [of 0 "map fst s" "enc (map fst s) (map snd s)" idx] enc by simp
  then show ?case
    by (simp add: Cons Let_def)
qed

lemma map_fst_batch_entries:
  assumes enc: "\<And>rs cs. length (enc rs cs) = length rs"
  shows "map fst (concat (map (\<lambda>s. zip (map fst s) (enc (map fst s) (map snd s))) slices)) =
     map fst (concat slices)"
  by (induction slices) (simp_all add: enc)

text \<open>
  C1, as the claim states it, fails. The claim: for every list, the pairs encoded are
  exactly the first \<open>\<lfloor>n/100\<rfloor> * 100\<close>, and the trailing \<open>n mod 100\<close> pairs are never
  encoded. For a list of one pair that pair is among the trailing ones, yet the cell
  passes it to the encoder, in the call made before the loop to read the embedding
  dimension. For the empty list the same call raises \<open>IndexError\<close>.
\<close>

theorem embedding_computation_counterexample:
  "drop (length [(''s'', ''c'')] div 100 * 100) [(''s'', ''c'')] = [(''s'', ''c'')] \<and>
   embedding_computation length_encoder [(''s'', ''c'')] =
     Inr \<lparr>encoder_calls = [([''s''], [''c''])],
          index = \<lparr>dims = 1, corpus = [], built = True\<rparr>\<rparr> \<and>
   embedding_computation length_encoder [] = Inl IndexError"
  by (simp add: embedding_computation_def length_encoder_def batch_size_def
      whole_batches.simps build_def)

text \<open>
  C1, amended. For every non-empty list of pairs and every encoder that returns one
  vector per row, the cell succeeds; after the one call on the first pair alone, the
  encoder is called once per whole batch of 100, in order; the index holds exactly
  the sentences of the first \<open>\<lfloor>n/100\<rfloor> * 100\<close> pairs, each with the vector of its row,
  and is built; the whole batches are \<open>\<lfloor>n/100\<rfloor>\<close> lists of 100 pairs that make up
  the first \<open>\<lfloor>n/100\<rfloor> * 100\<close> pairs, so the trailing \<open>n mod 100\<close> pairs are in no batch.
\<close>

theorem embedding_computation_whole_batches:
  assumes "sentences \<noteq> []" and "\<forall>rs cs. length (enc rs cs) = length rs"
  shows "\<exists>st. embedding_computation enc sentences = Inr st \<and>
     encoder_calls st =
       ([fst (hd sentences)], [snd (hd sentences)]) #
       map (\<lambda>s. (map fst s, map snd s)) (whole_batches 100 sentences) \<and>
     corpus (index st) =
       concat (map (\<lambda>s. zip (map fst s) (enc (map fst s) (map snd s)))
         (whole_batches 100 sentences)) \<and>
     map fst (corpus (index st)) = map fst (take (length sentences div 100 * 100) sentences) \<and>
     built (index st) \<and>
     concat (whole_batches 100 sentences) = take (length sentences div 100 * 100) sentences \<and>
     length (whole_batches 100 sentences) = length sentences div 100 \<and>
     (\<forall>s \<in> set (whole_batches 100 sentences). length s = 100)"
proof -
  from assms(2) have enc: "\<And>rs cs. length (enc rs cs) = length rs" by simp
  from assms(1) obtain s0 rest where s: "sentences = s0 # rest" by (cases sentences) auto
  from enc [of "[fst s0]" "[snd s0]"] obtain v0 where v: "enc [fst s0] [snd s0] = [v0]"
    by (cases "enc [fst s0] [snd s0]") auto
  have c: "concat (whole_batches 100 sentences) = take (length sentences div 100 * 100) sentences"
    by (rule whole_batches_concat) simp
  have m: "map fst (concat (map (\<lambda>s. zip (map fst s) (enc (map fst s) (map snd s)))
         (whole_batches 100 sentences))) = map fst (take (length sentences div 100 * 100) sentences)"
    using map_fst_batch_entries [of enc "whole_batches 100 sentences"] enc c by simp
  have n: "length (whole_batches 100 sentences) = length sentences div 100"
    by (rule whole_batches_count) simp
  have l: "\<forall>s \<in> set (whole_batches 100 sentences). length s = 100"
    using whole_batches_length [of 100 _ sentences] by simp
  have "embedding_computation enc sentences =
      Inr \<lparr>encoder_calls = ([fst s0], [snd s0]) #
              map (\<lambda>s. (map fst s, map snd s)) (whole_batches 100 sentences),
           index = \<lparr>dims = length v0,
              corpus = concat (map (\<lambda>s. zip (map fst s) (enc (map fst s) (map snd s)))
                 (whole_batches 100 sentences)),
              built = True\<rparr>\<rparr>"
    by (simp add: embedding_computation_def s v batch_size_def index_batches_ok [OF enc] build_def
        Let_def)
  with c m n l s show ?thesis by simp
qed

theorem embedding_computation_whole_batches_witness:
  "replicate 101 (''s'', ''c'') \<noteq> [] \<and>
   (\<forall>rs cs. length (length_encoder rs cs) = length rs) \<and>
   (\<exists>st. embedding_computation length_encoder (replicate 101 (''s'', ''c'')) = Inr st \<and>
      map fst (corpus (index st)) = replicate 100 ''s'' \<and> built (index st))"
proof -
  have h1: "replicate 101 (''s'', ''c'') \<noteq> []" by simp
  have h2: "\<forall>rs cs. length (length_encoder rs cs) = length rs"
    by (simp add: length_encoder_def)
  from embedding_computation_whole_batches [OF h1 h2] h1 h2 show ?thesis
    by auto
qed

section \<open>Properties of the frame functions\<close>

lemma list_slice_nonneg:
  "0 \<le> a \<Longrightarrow> 0 \<le> b \<Longrightarrow> list_slice xs a b = take (nat b - nat a) (drop (nat a) xs)"
  by (auto simp: list_slice_def slice_bound_def Let_def min_def)

lemma slice_length_inside:
  "nat a + nat m \<le> n \<Longrightarrow> 0 \<le> a \<Longrightarrow> 0 \<le> m \<Longrightarrow> slice_length n a (a + m) = nat m"
  by (auto simp: slice_length_def slice_bound_def min_def nat_add_distrib)

text \<open>
  C6. For a frame of positive height \<open>y\<close> and width \<open>x\<close>, \<open>crop_center_square\<close> returns
  a frame of height and width \<open>min y x\<close> whose rows start at row
  \<open>y div 2 - min y x div 2\<close> and whose columns start at column
  \<open>x div 2 - min y x div 2\<close> of the input; the square lies inside the input.
\<close>

theorem crop_center_square_centered:
  assumes "frame_ok frame" and "0 < height frame" and "0 < width frame"
  shows "let m = min (height frame) (width frame);
             start_y = height frame div 2 - m div 2;
             start_x = width frame div 2 - m div 2;
             cropped = crop_center_square frame
         in height cropped = m \<and> width cropped = m \<and> frame_ok cropped \<and>
            start_y + m \<le> height frame \<and> start_x + m \<le> width frame \<and>
            (\<forall>i < m. \<forall>j < m.
               pixels cropped ! i ! j = pixels frame ! (start_y + i) ! (start_x + j))"
proof -
  define y x m where "y = height frame" and "x = width frame" and "m = min y x"
  define sy sx where "sy = y div 2 - m div 2" and "sx = x div 2 - m div 2"
  have len: "length (pixels frame) = y"
    and row: "\<And>r. r \<in> set (pixels frame) \<Longrightarrow> length r = x"
    using assms(1) by (auto simp: frame_ok_def y_def x_def)
  have my: "m \<le> y" and mx: "m \<le> x" by (auto simp: m_def)
  have ub_y: "sy + m \<le> y" and ub_x: "sx + m \<le> x"
    using my mx by (auto simp: sy_def sx_def m_def min_def)
  have im: "min (int y) (int x) = int m"
    by (simp add: m_def)
  have isy: "int y div 2 - int m div 2 = int sy"
    using my by (simp add: sy_def zdiv_int of_nat_diff div_le_mono)
  have isx: "int x div 2 - int m div 2 = int sx"
    using mx by (simp add: sx_def zdiv_int of_nat_diff div_le_mono)
  have rows: "list_slice (pixels frame) (int sy) (int sy + int m) = take m (drop sy (pixels frame))"
    by (simp add: list_slice_nonneg nat_add_distrib)
  have cols: "list_slice r (int sx) (int sx + int m) = take m (drop sx r)" for r :: "'a list"
    by (simp add: list_slice_nonneg nat_add_distrib)
  have c: "crop_center_square frame =
      \<lparr>height = m, width = m,
       pixels = map (\<lambda>r. take m (drop sx r)) (take m (drop sy (pixels frame)))\<rparr>"
    using ub_y ub_x
    by (simp add: crop_center_square_def Let_def y_def [symmetric] x_def [symmetric] isy isx im
        rows cols slice_length_inside)
  have ok: "frame_ok \<lparr>height = m, width = m,
      pixels = map (\<lambda>r. take m (drop sx r)) (take m (drop sy (pixels frame)))\<rparr>"
    using ub_y ub_x len row
    by (auto simp: frame_ok_def dest!: in_set_takeD in_set_dropD)
  have px: "map (\<lambda>r. take m (drop sx r)) (take m (drop sy (pixels frame))) ! i ! j =
      pixels frame ! (sy + i) ! (sx + j)" if "i < m" "j < m" for i j
  proof -
    from that ub_y len have "pixels frame ! (sy + i) \<in> set (pixels frame)" by simp
    from row [OF this] have "length (pixels frame ! (sy + i)) = x" .
    with that ub_y ub_x len show ?thesis by simp
  qed
  have "height (crop_center_square frame) = m \<and> width (crop_center_square frame) = m \<and>
      frame_ok (crop_center_square frame) \<and> sy + m \<le> y \<and> sx + m \<le> x \<and>
      (\<forall>i < m. \<forall>j < m.
         pixels (crop_center_square frame) ! i ! j = pixels frame ! (sy + i) ! (sx + j))"
    using ok px ub_y ub_x unfolding c by simp
  then show ?thesis
    unfolding Let_def sy_def sx_def m_def y_def x_def .
qed

theorem crop_center_square_centered_witness:
  "frame_ok frame_example \<and> 0 < height frame_example \<and> 0 < width frame_example \<and>
   crop_center_square frame_example =
     \<lparr>height = 2, width = 2,
      pixels = [[(3, 4, 5), (6, 7, 8)], [(255, 128, 51), (18, 19, 20)]]\<rparr> \<and>
   frame_ok (crop_center_square frame_example)"
proof -
  have h: "frame_ok frame_example" "0 < height frame_example" "0 < width frame_example"
    by (simp_all add: frame_ok_def frame_example_def)
  have c: "crop_center_square frame_example =
     \<lparr>height = 2, width = 2,
      pixels = [[(3, 4, 5), (6, 7, 8)], [(255, 128, 51), (18, 19, 20)]]\<rparr>"
    by code_simp
  from crop_center_square_centered [OF h] h c show ?thesis
    by (simp add: Let_def)
qed

lemma frame_values_divide_255:
  "frame_values (divide_255 rnd frame) =
     map (\<lambda>c. rnd (real (unat c) / 255)) (frame_values frame)"
  by (simp add: frame_values_def divide_255_def map_concat comp_def split_def)

lemma array_values_divide_255:
  "array_values (map (divide_255 rnd) frames) =
     map (\<lambda>c. rnd (real (unat c) / 255)) (array_values frames)"
  by (simp add: array_values_def map_concat comp_def frame_values_divide_255)

lemma divide_255_range:
  assumes "mono rnd" "rnd 0 = 0" "rnd 1 = 1"
  shows "0 \<le> rnd (real (unat (c :: 8 word)) / 255) \<and> rnd (real (unat c) / 255) \<le> 1"
proof -
  have "unat c < 2 ^ LENGTH(8)" by (rule unsigned_less)
  then have "unat c \<le> 255" by simp
  from of_nat_mono [OF this, where 'a = real] have "real (unat c) \<le> 255" by simp
  moreover have "0 \<le> real (unat c)" by (rule of_nat_0_le_iff)
  ultimately have q: "0 \<le> real (unat c) / 255" "real (unat c) / 255 \<le> 1" by simp_all
  from monoD [OF assms(1) q(1)] monoD [OF assms(1) q(2)] assms(2,3) show ?thesis by simp
qed

text \<open>
  C7. For 8-bit frames, every value of the array returned by \<open>load_video\<close> is the
  8-bit value at its place divided by 255, and lies in \<open>[0, 1]\<close>. The division is a
  float division: the statement holds for every rounding \<open>rnd\<close> of the exact
  quotient that is monotone and leaves 0 and 1 as they are.
\<close>

theorem load_video_normalized:
  assumes "mono rnd" and "rnd 0 = 0" and "rnd 1 = 1"
  shows "array_values (load_video rnd video_capture cv2_resize path max_frames resize) =
       map (\<lambda>c. rnd (real (unat c) / 255))
         (array_values (read_frames (cv2_resize resize) max_frames (video_capture path) [])) \<and>
     (\<forall>v \<in> set (array_values (load_video rnd video_capture cv2_resize path max_frames resize)).
        0 \<le> v \<and> v \<le> 1)"
  using divide_255_range [OF assms]
  by (auto simp: load_video_def array_values_divide_255)

lemma round_grid_mono: "mono round_grid"
proof (rule monoI)
  fix x y :: real
  assume "x \<le> y"
  then have "\<lfloor>x * 1024 + 1 / 2\<rfloor> \<le> \<lfloor>y * 1024 + 1 / 2\<rfloor>"
    by (intro floor_mono) simp
  then show "round_grid x \<le> round_grid y"
    by (simp add: round_grid_def divide_right_mono)
qed

theorem load_video_normalized_witness:
  "mono round_grid \<and> round_grid 0 = 0 \<and> round_grid 1 = 1 \<and>
   array_values (load_video round_grid one_frame_video no_resize ''v.avi'' 0 (224, 224)) =
     map (\<lambda>c. round_grid (real (unat c) / 255))
       [5, 4, 3, 8, 7, 6, 51, 128, 255, 20, 19, 18 :: 8 word] \<and>
   list_all (\<lambda>v. 0 \<le> v \<and> v \<le> 1)
     (array_values (load_video round_grid one_frame_video no_resize ''v.avi'' 0 (224, 224)))"
proof -
  have h: "round_grid 0 = 0" "round_grid 1 = 1"
    by (simp_all add: round_grid_def)
  have r: "array_values (read_frames (no_resize (224, 224)) 0 (one_frame_video ''v.avi'') []) =
      [5, 4, 3, 8, 7, 6, 51, 128, 255, 20, 19, 18]"
    by code_simp
  from load_video_normalized [OF round_grid_mono h,
      of one_frame_video no_resize "''v.avi''" 0 "(224, 224)"] round_grid_mono h r
  show ?thesis by (simp add: list_all_iff)
qed

section \<open>Properties of the prediction\<close>

lemma set_argsort: "set (argsort ps) = {..<length ps}"
  by (auto simp: argsort_def)

lemma distinct_argsort: "distinct (argsort ps)"
  by (simp add: argsort_def)

lemma length_argsort: "length (argsort ps) = length ps"
  by (simp add: argsort_def)

lemma sorted_argsort: "sorted (map (\<lambda>i. ps ! i) (argsort ps))"
  by (simp add: argsort_def)

lemma descending_rev_argsort:
  "sorted_wrt (\<lambda>p q. q \<le> p) (map (\<lambda>i. ps ! i) (rev (argsort ps)))"
proof -
  have "sorted_wrt (\<lambda>x y. x \<le> y) (map (\<lambda>i. ps ! i) (argsort ps))"
    by (rule sorted_argsort)
  then have "sorted_wrt (\<lambda>p q. q \<le> p) (rev (map (\<lambda>i. ps ! i) (argsort ps)))"
    by (simp only: sorted_wrt_rev)
  then show ?thesis
    by (simp only: rev_map)
qed

lemma print_actions_ok:
  "\<forall>i \<in> set top5. i < length labels \<Longrightarrow>
   print_actions labels ps top5 = Inr (map (\<lambda>i. (labels ! i, ps ! i * 100)) top5)"
  by (induction top5) simp_all

text \<open>
  C8. When the probabilities (the softmax of the logits) have at least five entries
  and every class has a label, \<open>predict\<close> prints exactly five lines, for five different
  classes, each with its label and its probability times 100; the probabilities of
  the lines are in descending order, and no class left out has a probability above
  that of a class printed.
\<close>

theorem predict_top_five:
  assumes "probabilities = softmax (i3d sample_video)"
    and "5 \<le> length probabilities" and "length probabilities \<le> length labels"
  shows "\<exists>top5. predict i3d softmax labels sample_video =
        Inr (map (\<lambda>i. (labels ! i, probabilities ! i * 100)) top5) \<and>
     length top5 = 5 \<and> distinct top5 \<and> (\<forall>i \<in> set top5. i < length probabilities) \<and>
     sorted_wrt (\<lambda>p q. q \<le> p) (map (\<lambda>i. probabilities ! i) top5) \<and>
     (\<forall>j < length probabilities. j \<notin> set top5 \<longrightarrow>
        (\<forall>i \<in> set top5. probabilities ! j \<le> probabilities ! i))"
proof -
  define order where "order = rev (argsort probabilities)"
  define top5 where "top5 = take 5 order"
  have so: "set order = {..<length probabilities}" and lo: "length order = length probabilities"
    and dist: "distinct order"
    by (simp_all add: order_def set_argsort length_argsort distinct_argsort)
  have split: "order = top5 @ drop 5 order"
    by (simp add: top5_def)
  have desc: "sorted_wrt (\<lambda>p q. q \<le> p) (map (\<lambda>i. probabilities ! i) order)"
    unfolding order_def by (rule descending_rev_argsort)
  then have desc2: "sorted_wrt (\<lambda>p q. q \<le> p)
      (map (\<lambda>i. probabilities ! i) top5 @ map (\<lambda>i. probabilities ! i) (drop 5 order))"
    by (subst (asm) split) simp
  have in_range: "\<forall>i \<in> set top5. i < length probabilities"
    using so set_take_subset [of 5 order] by (auto simp: top5_def)
  with assms(3) have lab: "\<forall>i \<in> set top5. i < length labels" by auto
  have p: "predict i3d softmax labels sample_video =
      Inr (map (\<lambda>i. (labels ! i, probabilities ! i * 100)) top5)"
    using print_actions_ok [OF lab, of probabilities]
    by (simp add: predict_def Let_def assms(1) [symmetric] top5_def order_def)
  have len: "length top5 = 5"
    using assms(2) lo by (simp add: top5_def)
  have d: "distinct top5"
    using dist by (simp add: top5_def)
  have d1: "sorted_wrt (\<lambda>p q. q \<le> p) (map (\<lambda>i. probabilities ! i) top5)"
    using desc2 by (simp add: sorted_wrt_append)
  have rest: "probabilities ! j \<le> probabilities ! i"
    if "j < length probabilities" "j \<notin> set top5" "i \<in> set top5" for i j
  proof -
    from that(1) so have "j \<in> set order" by simp
    with split that(2) have "j \<in> set (drop 5 order)"
      by (metis Un_iff set_append)
    with desc2 that(3) show ?thesis
      by (auto simp: sorted_wrt_append)
  qed
  from p len d in_range d1 rest show ?thesis by blast
qed

theorem predict_top_five_witness:
  "5 \<le> length (real_softmax (i3d_example ())) \<and>
   length (real_softmax (i3d_example ())) \<le> length labels_example \<and>
   real_softmax (i3d_example ()) = [1 / 7, 1 / 21, 2 / 7, 2 / 21, 5 / 21, 4 / 21] \<and>
   predict i3d_example real_softmax labels_example () =
     Inr [(''bowling'', 200 / 7), (''dancing'', 500 / 21), (''fencing'', 400 / 21),
          (''abseiling'', 100 / 7), (''cricket'', 200 / 21)] \<and>
   (\<exists>top5. predict i3d_example real_softmax labels_example () =
        Inr (map (\<lambda>i. (labels_example ! i, real_softmax (i3d_example ()) ! i * 100)) top5) \<and>
      length top5 = 5 \<and> distinct top5 \<and>
      sorted_wrt (\<lambda>p q. q \<le> p) (map (\<lambda>i. real_softmax (i3d_example ()) ! i) top5))"
proof -
  have s: "real_softmax (i3d_example ()) = [1 / 7, 1 / 21, 2 / 7, 2 / 21, 5 / 21, 4 / 21]"
    by (simp add: real_softmax_def i3d_example_def)
  have h: "5 \<le> length (real_softmax (i3d_example ()))"
    "length (real_softmax (i3d_example ())) \<le> length labels_example"
    by (simp_all add: s labels_example_def)
  have p: "predict i3d_example real_softmax labels_example () =
     Inr [(''bowling'', 200 / 7), (''dancing'', 500 / 21), (''fencing'', 400 / 21),
          (''abseiling'', 100 / 7), (''cricket'', 200 / 21)]"
    by (simp add: predict_def Let_def s argsort_def labels_example_def upt_rec)
  from predict_top_five [of "real_softmax (i3d_example ())" real_softmax i3d_example "()"
      labels_example, OF refl h]
  obtain top5 where "predict i3d_example real_softmax labels_example () =
        Inr (map (\<lambda>i. (labels_example ! i, real_softmax (i3d_example ()) ! i * 100)) top5)"
    and "length top5 = 5" and "distinct top5"
    and "sorted_wrt (\<lambda>p q. q \<le> p) (map (\<lambda>i. real_softmax (i3d_example ()) ! i) top5)"
    by blast
  with h s p show ?thesis by blast
qed

section \<open>Properties of the video cache\<close>




end
